theory Spec2Isabelle
  imports Complex_Main "HOL-Library.Multiset"
begin

section \<open>Data model of the player component (src/App.tsx)\<close>

text \<open>
  A \<open>Song\<close> object. The type is imported from \<open>./types\<close>; its fields are the ones the
  object literals in \<open>handleUpload\<close> fill in. The field \<open>id\<close> is called \<open>song_id\<close> here
  (\<open>id\<close> is the identity function of HOL). The \<open>file\<close> field (a browser \<open>File\<close> blob) is
  never read by the sequencing code and is left out. Every comparison of songs in
  the component goes through \<open>id\<close>, so object identity plays no role.
\<close>

record song =
  song_id :: string
  url :: string
  name :: string
  artist :: string
  duration :: real
  userId :: string
  coverUrl :: "string option"

text \<open>
  The \<open>useState\<close> cells of \<open>App\<close> that the playback handlers read and write
  (lines 54-68), together with the position of the \<open>audio\<close> element behind
  \<open>audioRef\<close>. The element is rendered exactly when \<open>currentSong\<close> is set (line 563), so
  \<open>audioRef.current\<close> is non-null exactly when \<open>currentSong\<close> is. Times are JavaScript
  numbers holding finite seconds; they are modelled as reals, on which the only test
  made of them (\<open>currentTime > 3\<close>) agrees.
\<close>

record player =
  library :: "song list"
  queue :: "song list"
  history :: "song list"
  skippedTracks :: "string set"
  currentSong :: "song option"
  isShuffled :: bool
  isRepeat :: bool
  shuffledQueue :: "song list"
  isPlaying :: bool
  currentTime :: real
  audioCurrentTime :: real

text \<open>The initial values of the \<open>useState\<close> cells.\<close>

definition initialState :: player where
  "initialState = \<lparr>library = [], queue = [], history = [], skippedTracks = {},
     currentSong = None, isShuffled = False, isRepeat = False, shuffledQueue = [],
     isPlaying = False, currentTime = 0, audioCurrentTime = 0\<rparr>"

text \<open>The object literal \<open>guestSong\<close> of \<open>handleUpload\<close> (lines 200-209), for a given
  identifier, object URL and title, with the default artist and no cover.\<close>

definition guestSong :: "string \<Rightarrow> string \<Rightarrow> string \<Rightarrow> song" where
  "guestSong ident objectUrl title = \<lparr>song_id = ident, url = objectUrl, name = title,
     artist = ''Unknown Artist'', duration = 0, userId = ''guest'', coverUrl = None\<rparr>"

section \<open>Array primitives of JavaScript used by the handlers\<close>

text \<open>\<open>Array.prototype.findIndex\<close>: the first index whose element satisfies the
  predicate, \<open>-1\<close> when there is none.\<close>

fun findIndex :: "('a \<Rightarrow> bool) \<Rightarrow> 'a list \<Rightarrow> int" where
  "findIndex p [] = -1"
| "findIndex p (x # xs) =
     (if p x then 0 else (let r = findIndex p xs in if r = -1 then -1 else r + 1))"

text \<open>\<open>prev.filter((_, i) => i !== index)\<close>: keep the elements whose position differs
  from \<open>index\<close>.\<close>

definition filterIndexNe :: "int \<Rightarrow> 'a list \<Rightarrow> 'a list" where
  "filterIndexNe index xs = map snd (filter (\<lambda>p. int (fst p) \<noteq> index) (enumerate 0 xs))"

text \<open>\<open>xs[index]\<close> for an integer index: \<open>undefined\<close> (here \<open>None\<close>) out of range.\<close>

definition atIndex :: "'a list \<Rightarrow> int \<Rightarrow> 'a option" where
  "atIndex xs index =
     (if 0 \<le> index \<and> index < int (length xs) then Some (xs ! nat index) else None)"

section \<open>The handlers\<close>

text \<open>
  The remaining library tracks, computed by the same statements in \<open>toggleShuffle\<close>
  (lines 296-304) and in \<open>getUpNext\<close> (lines 441-447): \<open>library.slice(idx + 1)\<close> when the
  current song is found at an index before the last one, the empty array otherwise.
\<close>

definition autoQueue :: "player \<Rightarrow> song list" where
  "autoQueue s =
     (case currentSong s of
        None \<Rightarrow> []
      | Some c \<Rightarrow>
          if length (library s) > 0 then
            (let idx = findIndex (\<lambda>t. song_id t = song_id c) (library s)
             in if idx \<noteq> -1 \<and> idx < int (length (library s)) - 1
                then drop (nat (idx + 1)) (library s) else [])
          else [])"

text \<open>
  The Fisher-Yates loop of \<open>toggleShuffle\<close> (lines 310-313), for \<open>i\<close> running down to 1.
  \<open>rnd k\<close> is the value of the \<open>k\<close>-th call of \<open>Math.random()\<close>, a number in \<open>[0, 1)\<close>, so
  that \<open>j = Math.floor(Math.random() * (i + 1))\<close> lies in \<open>0..i\<close> and both array accesses
  of the swap are in range. The product is evaluated exactly here, where the code rounds
  it to a double, so for some draws the code takes a neighbouring index: at
  \<open>Math.random() = 0.3333333333333333\<close> and \<open>i = 2\<close> the rounded product is \<open>1.0\<close> and
  the code takes \<open>j = 1\<close>, the exact product gives \<open>j = 0\<close>. The rounded product stays
  below \<open>i + 1\<close>, so the code's index lies in \<open>0..i\<close> as well, and every index in
  \<open>0..i\<close> is the exact one for some value of \<open>rnd k\<close>.
\<close>

fun fisherYates :: "(nat \<Rightarrow> real) \<Rightarrow> nat \<Rightarrow> nat \<Rightarrow> song list \<Rightarrow> song list" where
  "fisherYates rnd k 0 xs = xs"
| "fisherYates rnd k (Suc i') xs =
     (let i = Suc i';
          j = nat \<lfloor>rnd k * real (i + 1)\<rfloor>
      in fisherYates rnd (Suc k) i' (xs[i := xs ! j, j := xs ! i]))"

definition toggleShuffle :: "(nat \<Rightarrow> real) \<Rightarrow> player \<Rightarrow> player" where
  "toggleShuffle rnd s =
     (if isShuffled s then s\<lparr>isShuffled := False, shuffledQueue := []\<rparr>
      else
        (let manualQueue = queue s;
             tracksToShuffle =
               manualQueue @ filter (\<lambda>t. song_id t \<notin> skippedTracks s) (autoQueue s)
         in s\<lparr>shuffledQueue :=
                 fisherYates rnd 0 (length tracksToShuffle - 1) tracksToShuffle,
               isShuffled := True\<rparr>))"

text \<open>The \<open>while\<close> loop of \<open>playNext\<close> (lines 369-371).\<close>

function nextUnskipped :: "song list \<Rightarrow> string set \<Rightarrow> nat \<Rightarrow> nat" where
  "nextUnskipped lib skipped nextIndex =
     (if nextIndex < length lib \<and> song_id (lib ! nextIndex) \<in> skipped
      then nextUnskipped lib skipped (Suc nextIndex) else nextIndex)"
  by pat_completeness auto
termination
  by (relation "measure (\<lambda>(lib, skipped, nextIndex). length lib - nextIndex)") auto

declare nextUnskipped.simps [simp del]

text \<open>\<open>playNext\<close> (lines 320-379). \<open>currentIndex + 1\<close> is never negative, so the loop
  counter is a natural number.\<close>

definition playNext :: "player \<Rightarrow> player" where
  "playNext s =
     (if currentSong s = None \<and> length (library s) = 0 then s
      else
        (let s1 = (case currentSong s of
                     Some c \<Rightarrow> s\<lparr>history := history s @ [c]\<rparr>
                   | None \<Rightarrow> s)
         in if isShuffled s then
              (if length (shuffledQueue s) > 0 then
                 (let nextSong = hd (shuffledQueue s)
                  in s1\<lparr>shuffledQueue := drop 1 (shuffledQueue s),
                        currentSong := Some nextSong,
                        isPlaying := True,
                        queue := filter (\<lambda>t. song_id t \<noteq> song_id nextSong) (queue s)\<rparr>)
               else s1\<lparr>isPlaying := False\<rparr>)
            else if length (queue s) > 0 then
              (let nextSong = hd (queue s)
               in s1\<lparr>queue := drop 1 (queue s),
                     currentSong := Some nextSong,
                     isPlaying := True\<rparr>)
            else if length (library s) = 0 then s1\<lparr>isPlaying := False\<rparr>
            else
              (let currentIndex =
                     (case currentSong s of
                        Some c \<Rightarrow> findIndex (\<lambda>t. song_id t = song_id c) (library s)
                      | None \<Rightarrow> -1);
                   nextIndex = nextUnskipped (library s) (skippedTracks s)
                                 (nat (currentIndex + 1))
               in if nextIndex < length (library s)
                  then s1\<lparr>currentSong := Some (library s ! nextIndex), isPlaying := True\<rparr>
                  else s1\<lparr>isPlaying := False\<rparr>)))"

text \<open>\<open>playPrevious\<close> (lines 392-420). \<open>history.slice(0, -1)\<close> drops the last element.\<close>

definition playPrevious :: "player \<Rightarrow> player" where
  "playPrevious s =
     (case currentSong s of
        None \<Rightarrow> s
      | Some c \<Rightarrow>
          if currentTime s > 3 then s\<lparr>audioCurrentTime := 0\<rparr>
          else if length (history s) > 0 then
            (let prevSong = last (history s)
             in s\<lparr>history := butlast (history s),
                  currentSong := Some prevSong,
                  isPlaying := True\<rparr>)
          else if length (library s) > 0 then
            (let currentIndex = findIndex (\<lambda>t. song_id t = song_id c) (library s)
             in if currentIndex > 0
                then s\<lparr>currentSong := Some (library s ! nat (currentIndex - 1)),
                       isPlaying := True\<rparr>
                else s\<lparr>audioCurrentTime := 0\<rparr>)
          else s)"

text \<open>\<open>handleAddToQueue\<close> (lines 422-431); the notification is not sequencer state.\<close>

definition handleAddToQueue :: "song \<Rightarrow> player \<Rightarrow> player" where
  "handleAddToQueue sng s =
     (let s1 = s\<lparr>queue := queue s @ [sng]\<rparr>
      in if isShuffled s then s1\<lparr>shuffledQueue := shuffledQueue s @ [sng]\<rparr> else s1)"

text \<open>\<open>getUpNext\<close> (lines 434-450), the derived list the component renders as
  \<open>upNext\<close>. It is a function of the state and returns no state.\<close>

definition getUpNext :: "player \<Rightarrow> song list" where
  "getUpNext s =
     (if isShuffled s then shuffledQueue s
      else
        (let manualQueue = queue s;
             filteredAutoQueue = filter (\<lambda>t. song_id t \<notin> skippedTracks s) (autoQueue s)
         in manualQueue @ filteredAutoQueue))"

text \<open>\<open>handleRemoveFromUpNext\<close> (lines 454-474); \<open>upNext\<close> is \<open>getUpNext()\<close> of the
  same render.\<close>

definition handleRemoveFromUpNext :: "int \<Rightarrow> player \<Rightarrow> player" where
  "handleRemoveFromUpNext index s =
     (if isShuffled s then s\<lparr>shuffledQueue := filterIndexNe index (shuffledQueue s)\<rparr>
      else if index < int (length (queue s))
      then s\<lparr>queue := filterIndexNe index (queue s)\<rparr>
      else
        (case atIndex (getUpNext s) index of
           Some songToSkip \<Rightarrow>
             s\<lparr>skippedTracks := insert (song_id songToSkip) (skippedTracks s)\<rparr>
         | None \<Rightarrow> s))"

text \<open>\<open>handlePlayFromLibrary\<close> (lines 510-526).\<close>

definition handlePlayFromLibrary :: "song \<Rightarrow> player \<Rightarrow> player" where
  "handlePlayFromLibrary sng s =
     (let s1 = (case currentSong s of
                  Some c \<Rightarrow> s\<lparr>history := history s @ [c]\<rparr>
                | None \<Rightarrow> s)
      in s1\<lparr>currentSong := Some sng, isPlaying := True, skippedTracks := {},
            isShuffled := False, shuffledQueue := []\<rparr>)"

text \<open>
  \<open>refreshLibrary\<close> (lines 73-84). \<open>fetched\<close> is the outcome of \<open>fetchUserTracks\<close>:
  \<open>None\<close> when it throws (the exception is caught and logged).
\<close>

definition refreshLibrary :: "bool \<Rightarrow> string \<Rightarrow> song list option \<Rightarrow> player \<Rightarrow> player" where
  "refreshLibrary isSupabaseConfigured uid fetched s =
     (if uid = ''guest'' then s
      else if \<not> isSupabaseConfigured then s
      else (case fetched of Some remoteTracks \<Rightarrow> s\<lparr>library := remoteTracks\<rparr> | None \<Rightarrow> s))"

text \<open>
  The state updates shared by the three branches of \<open>handleUpload\<close> (lines 211-215,
  246-250, 270-274), for the song the upload pipeline produced.
\<close>

definition handleUpload :: "song \<Rightarrow> player \<Rightarrow> player" where
  "handleUpload sng s =
     (let s1 = s\<lparr>library := sng # library s\<rparr>
      in if currentSong s = None then s1\<lparr>currentSong := Some sng, isPlaying := True\<rparr>
         else s1)"

text \<open>The reset done by \<open>handleLogout\<close> for a guest (lines 148-156) and by
  \<open>syncUserSession\<close> when the session ends (lines 108-115).\<close>

definition clearSession :: "player \<Rightarrow> player" where
  "clearSession s = s\<lparr>library := [], queue := [], history := [], skippedTracks := {},
     shuffledQueue := [], isShuffled := False, currentSong := None, isPlaying := False\<rparr>"

text \<open>\<open>handleSongEnd\<close> (lines 382-390), \<open>toggleRepeat\<close>, \<open>togglePlay\<close>,
  \<open>onTimeUpdate\<close> and \<open>onSeek\<close>.\<close>

definition handleSongEnd :: "player \<Rightarrow> player" where
  "handleSongEnd s =
     (if isRepeat s \<and> currentSong s \<noteq> None then s\<lparr>audioCurrentTime := 0\<rparr>
      else playNext s)"

definition toggleRepeat :: "player \<Rightarrow> player" where
  "toggleRepeat s = s\<lparr>isRepeat := \<not> isRepeat s\<rparr>"

definition togglePlay :: "player \<Rightarrow> player" where
  "togglePlay s = s\<lparr>isPlaying := \<not> isPlaying s\<rparr>"

definition onTimeUpdate :: "player \<Rightarrow> player" where
  "onTimeUpdate s =
     (if currentSong s \<noteq> None then s\<lparr>currentTime := audioCurrentTime s\<rparr> else s)"

definition onSeek :: "real \<Rightarrow> player \<Rightarrow> player" where
  "onSeek time s =
     (if currentSong s \<noteq> None then s\<lparr>audioCurrentTime := time, currentTime := time\<rparr>
      else s)"

section \<open>Sequences of events\<close>

text \<open>
  The events the component reacts to. \<open>AudioProgress t\<close> is the \<open>audio\<close> element
  reaching position \<open>t\<close>; \<open>AudioError\<close> is \<open>handleAudioError\<close>, which calls \<open>playNext\<close>;
  \<open>SetPlaying\<close> covers the direct calls of \<open>setIsPlaying\<close> (play button of the hero,
  pause of the library view, rejected autoplay).
\<close>

datatype event =
    PlayNext
  | PlayPrevious
  | AddToQueue song
  | RemoveFromUpNext int
  | ToggleShuffle "nat \<Rightarrow> real"
  | ToggleRepeat
  | TogglePlay
  | SetPlaying bool
  | PlayFromLibrary song
  | RefreshLibrary bool string "song list option"
  | Upload song
  | ClearSession
  | SongEnd
  | AudioError
  | AudioProgress real
  | TimeUpdate
  | Seek real

fun step :: "event \<Rightarrow> player \<Rightarrow> player" where
  "step PlayNext s = playNext s"
| "step PlayPrevious s = playPrevious s"
| "step (AddToQueue sng) s = handleAddToQueue sng s"
| "step (RemoveFromUpNext index) s = handleRemoveFromUpNext index s"
| "step (ToggleShuffle rnd) s = toggleShuffle rnd s"
| "step ToggleRepeat s = toggleRepeat s"
| "step TogglePlay s = togglePlay s"
| "step (SetPlaying b) s = s\<lparr>isPlaying := b\<rparr>"
| "step (PlayFromLibrary sng) s = handlePlayFromLibrary sng s"
| "step (RefreshLibrary cfg uid fetched) s = refreshLibrary cfg uid fetched s"
| "step (Upload sng) s = handleUpload sng s"
| "step ClearSession s = clearSession s"
| "step SongEnd s = handleSongEnd s"
| "step AudioError s = playNext s"
| "step (AudioProgress t) s = s\<lparr>audioCurrentTime := t\<rparr>"
| "step TimeUpdate s = onTimeUpdate s"
| "step (Seek t) s = onSeek t s"

fun run :: "event list \<Rightarrow> player \<Rightarrow> player" where
  "run [] s = s"
| "run (e # es) s = run es (step e s)"



section \<open>Repeated navigation\<close>

text \<open>\<open>n\<close> calls of \<open>playNext\<close> in a row.\<close>

fun playNextTimes :: "nat \<Rightarrow> player \<Rightarrow> player" where
  "playNextTimes 0 s = s"
| "playNextTimes (Suc n) s = playNextTimes n (playNext s)"

text \<open>
  One call of \<open>playPrevious\<close> for every element of \<open>ts\<close>; the element is the value of
  the \<open>currentTime\<close> cell (the elapsed time the last \<open>timeupdate\<close> reported) at the
  moment of that call.
\<close>

fun playPreviousAt :: "real list \<Rightarrow> player \<Rightarrow> player" where
  "playPreviousAt [] s = s"
| "playPreviousAt (t # ts) s = playPreviousAt ts (playPrevious (s\<lparr>currentTime := t\<rparr>))"

text \<open>The history is non-empty before each of these calls of \<open>playPrevious\<close>.\<close>

fun historyNonEmptyAtEachStep :: "real list \<Rightarrow> player \<Rightarrow> bool" where
  "historyNonEmptyAtEachStep [] s = True"
| "historyNonEmptyAtEachStep (t # ts) s =
     (history s \<noteq> [] \<and> historyNonEmptyAtEachStep ts (playPrevious (s\<lparr>currentTime := t\<rparr>)))"

section \<open>Notions of the specification\<close>

text \<open>
  The specification's "Library tracks strictly after Current Track", written from its
  words and not from the code: what follows the current track's position in the
  library, and nothing when there is no current track or it is not in the library.
\<close>

definition spec_tracksAfterCurrent :: "player \<Rightarrow> song list" where
  "spec_tracksAfterCurrent s =
     (case currentSong s of
        None \<Rightarrow> []
      | Some c \<Rightarrow> tl (dropWhile (\<lambda>t. song_id t \<noteq> song_id c) (library s)))"

text \<open>Two properties of states: the history is empty while no song is current, and
  every skipped identifier is the identifier of a library track.\<close>

definition noHistoryWithoutSong :: "player \<Rightarrow> bool" where
  "noHistoryWithoutSong s = (currentSong s = None \<longrightarrow> history s = [])"

definition skippedInLibrary :: "player \<Rightarrow> bool" where
  "skippedInLibrary s = (skippedTracks s \<subseteq> song_id ` set (library s))"


text \<open>A sequence of events in which every library refresh delivers a library that
  still holds all the tracks skipped at that moment.\<close>

fun isRefresh :: "event \<Rightarrow> bool" where
  "isRefresh (RefreshLibrary cfg uid fetched) = True"
| "isRefresh e = False"

fun refreshKeepsSkipped :: "event list \<Rightarrow> player \<Rightarrow> bool" where
  "refreshKeepsSkipped [] s = True"
| "refreshKeepsSkipped (e # es) s =
     ((isRefresh e \<longrightarrow> skippedTracks s \<subseteq> song_id ` set (library (step e s)))
      \<and> refreshKeepsSkipped es (step e s))"

section \<open>Example tracks and scenarios\<close>

definition songA :: song where "songA = guestSong ''A'' ''blob:A'' ''Track A''"
definition songB :: song where "songB = guestSong ''B'' ''blob:B'' ''Track B''"
definition songX :: song where "songX = guestSong ''X'' ''blob:X'' ''Track X''"
definition songY :: song where "songY = guestSong ''Y'' ''blob:Y'' ''Track Y''"
definition songZ :: song where "songZ = guestSong ''Z'' ''blob:Z'' ''Track Z''"

text \<open>A track is queued from the library view while nothing plays, then a refresh
  delivers an empty library.\<close>

definition queuedThenEmptied :: player where
  "queuedThenEmptied =
     run [RefreshLibrary True ''user-1'' (Some [songA]), AddToQueue songA,
          RefreshLibrary True ''user-1'' (Some [])] initialState"

text \<open>X is uploaded and plays; A and B are queued.\<close>

definition queuedAB :: player where
  "queuedAB = run [Upload songX, AddToQueue songA, AddToQueue songB] initialState"




text \<open>Library X, Y, Z with X playing and A queued.\<close>

definition queuedA :: player where
  "queuedA = run [RefreshLibrary True ''user-1'' (Some [songX, songY, songZ]),
                  PlayFromLibrary songX, AddToQueue songA] initialState"

text \<open>Library X, Y with Y, the last track, playing.\<close>

definition endOfLibrary :: player where
  "endOfLibrary = run [RefreshLibrary True ''user-1'' (Some [songX, songY]),
                       PlayFromLibrary songY] initialState"

text \<open>Library X, Y, Z with X playing.\<close>

definition playingX :: "event list" where
  "playingX = [RefreshLibrary True ''user-1'' (Some [songX, songY, songZ]),
               PlayFromLibrary songX]"

text \<open>Y is removed from "up next" while X plays, then a refresh delivers a library
  without Y.\<close>

definition skipThenRefresh :: "event list" where
  "skipThenRefresh =
     [RefreshLibrary True ''user-1'' (Some [songX, songY]), PlayFromLibrary songX,
      RemoveFromUpNext 0, RefreshLibrary True ''user-1'' (Some [songX])]"

section \<open>Facts about the array primitives\<close>

lemmas song_defs = songA_def songB_def songX_def songY_def songZ_def guestSong_def

lemma findIndex_ge: "- 1 \<le> findIndex p xs"
  by (induction xs) (auto simp: Let_def)

lemma findIndex_lt: "findIndex p xs < int (length xs)"
  by (induction xs) (auto simp: Let_def)

lemma findIndex_none: "findIndex p xs = - 1 \<longleftrightarrow> (\<forall>x\<in>set xs. \<not> p x)"
proof (induction xs)
  case Nil
  then show ?case by simp
next
  case (Cons x xs)
  have "findIndex p xs + 1 \<noteq> - 1" using findIndex_ge [of p xs] by linarith
  with Cons show ?case by (auto simp: Let_def)
qed

lemma findIndex_dropWhile:
  "findIndex p xs \<noteq> - 1 \<Longrightarrow>
     drop (nat (findIndex p xs + 1)) xs = tl (dropWhile (\<lambda>x. \<not> p x) xs)"
proof (induction xs)
  case Nil
  then show ?case by simp
next
  case (Cons x xs)
  show ?case
  proof (cases "p x")
    case True
    then show ?thesis by simp
  next
    case False
    with Cons.prems have ne: "findIndex p xs \<noteq> - 1" by (auto simp: Let_def split: if_splits)
    have ge: "0 \<le> findIndex p xs" using findIndex_ge [of p xs] ne by linarith
    have "nat (findIndex p xs + 1 + 1) = Suc (nat (findIndex p xs + 1))" using ge by linarith
    with False ne Cons.IH show ?thesis by (simp add: Let_def)
  qed
qed

lemma filterIndexNe_enumerate:
  "map snd (filter (\<lambda>p. int (fst p) \<noteq> index) (enumerate n xs)) =
     (if int n \<le> index \<and> index < int (n + length xs)
      then take (nat index - n) xs @ drop (Suc (nat index - n)) xs else xs)"
proof (induction xs arbitrary: n)
  case Nil
  then show ?case by simp
next
  case (Cons x xs)
  show ?case
  proof (cases "int n = index")
    case True
    then show ?thesis using Cons.IH [of "Suc n"] by auto
  next
    case False
    show ?thesis
    proof (cases "int n < index \<and> index < int (n + length (x # xs))")
      case True
      then have "nat index - n = Suc (nat index - Suc n)" by linarith
      with True False show ?thesis using Cons.IH [of "Suc n"] by auto
    next
      case False
      with \<open>int n \<noteq> index\<close> show ?thesis using Cons.IH [of "Suc n"] by auto
    qed
  qed
qed

lemma filterIndexNe_in:
  "0 \<le> index \<Longrightarrow> index < int (length xs) \<Longrightarrow>
     filterIndexNe index xs = take (nat index) xs @ drop (Suc (nat index)) xs"
  using filterIndexNe_enumerate [of index 0 xs] by (simp add: filterIndexNe_def)

lemma filterIndexNe_out:
  "index < 0 \<or> int (length xs) \<le> index \<Longrightarrow> filterIndexNe index xs = xs"
  using filterIndexNe_enumerate [of index 0 xs] by (auto simp: filterIndexNe_def)

section \<open>The remaining library tracks\<close>

text \<open>The code's \<open>findIndex\<close>/\<open>slice\<close> computation yields the library tracks strictly
  after the current track.\<close>

lemma autoQueue_spec: "autoQueue s = spec_tracksAfterCurrent s"
proof (cases "currentSong s")
  case None
  then show ?thesis by (simp add: autoQueue_def spec_tracksAfterCurrent_def)
next
  case (Some c)
  let ?p = "\<lambda>t. song_id t = song_id c"
  let ?idx = "findIndex ?p (library s)"
  show ?thesis
  proof (cases "?idx = - 1")
    case True
    then have "\<forall>x\<in>set (library s). \<not> ?p x" by (simp add: findIndex_none)
    then have "dropWhile (\<lambda>t. \<not> ?p t) (library s) = []" by simp
    then have "tl (dropWhile (\<lambda>t. \<not> ?p t) (library s)) = []" by (simp only: list.sel)
    with True Some show ?thesis by (simp add: autoQueue_def spec_tracksAfterCurrent_def)
  next
    case False
    then have d: "drop (nat (?idx + 1)) (library s) = tl (dropWhile (\<lambda>t. \<not> ?p t) (library s))"
      by (rule findIndex_dropWhile)
    have ne: "library s \<noteq> []" using False by auto
    show ?thesis
    proof (cases "?idx < int (length (library s)) - 1")
      case True
      with False Some d ne show ?thesis by (simp add: autoQueue_def spec_tracksAfterCurrent_def)
    next
      case ge: False
      have "?idx < int (length (library s))" by (rule findIndex_lt)
      with ge have "nat (?idx + 1) = length (library s)" by linarith
      with d have "tl (dropWhile (\<lambda>t. \<not> ?p t) (library s)) = []" by simp
      with ge False Some ne show ?thesis by (simp add: autoQueue_def spec_tracksAfterCurrent_def)
    qed
  qed
qed

lemma autoQueue_subset: "set (autoQueue s) \<subseteq> set (library s)"
  by (auto simp: autoQueue_def Let_def split: option.splits dest: in_set_dropD)

section \<open>Consuming the manual queue\<close>

text \<open>
  C1 (as amended). In every state with shuffle off, a non-empty manual queue, and
  either a current track or a non-empty library, \<open>playNext\<close> makes the former head of
  the manual queue the current track, leaves the manual queue without its head (one
  element shorter), and sets playing.
\<close>

theorem playNext_consumes_queue:
  assumes "\<not> isShuffled s" and "queue s \<noteq> []"
    and "currentSong s \<noteq> None \<or> library s \<noteq> []"
  shows "currentSong (playNext s) = Some (hd (queue s))
       \<and> queue (playNext s) = tl (queue s)
       \<and> Suc (length (queue (playNext s))) = length (queue s)
       \<and> isPlaying (playNext s)"
  using assms by (cases "currentSong s") (auto simp: playNext_def Let_def drop_Suc)

theorem playNext_consumes_queue_witness:
  "\<not> isShuffled queuedAB \<and> queue queuedAB = [songA, songB]
   \<and> currentSong queuedAB = Some songX
   \<and> currentSong (playNext queuedAB) = Some songA
   \<and> queue (playNext queuedAB) = [songB]
   \<and> isPlaying (playNext queuedAB)"
  using playNext_consumes_queue [of queuedAB]
  by (simp add: Let_def queuedAB_def initialState_def handleUpload_def handleAddToQueue_def)

text \<open>
  C1 as stated fails: with shuffle off, the manual queue holding A, no current track
  and an empty library, the first guard of \<open>playNext\<close> returns the state unchanged, so
  A does not become current and stays in the queue.
\<close>

theorem playNext_consumes_queue_cex:
  "\<not> isShuffled queuedThenEmptied \<and> queue queuedThenEmptied = [songA]
   \<and> currentSong queuedThenEmptied = None \<and> library queuedThenEmptied = []
   \<and> playNext queuedThenEmptied = queuedThenEmptied
   \<and> currentSong (playNext queuedThenEmptied) \<noteq> Some (hd (queue queuedThenEmptied))
   \<and> queue (playNext queuedThenEmptied) \<noteq> tl (queue queuedThenEmptied)
   \<and> \<not> isPlaying (playNext queuedThenEmptied)"
  by (simp add: Let_def queuedThenEmptied_def initialState_def refreshLibrary_def
      handleAddToQueue_def playNext_def)

section \<open>Consuming the shuffled queue\<close>











section \<open>Shuffling\<close>

text \<open>Every swap of the Fisher-Yates loop exchanges two positions of the array, so
  the loop permutes it, whatever numbers in \<open>[0, 1)\<close> the random source returns.\<close>

lemma fisherYates_mset:
  "\<forall>k. 0 \<le> rnd k \<and> rnd k < 1 \<Longrightarrow> i \<le> length xs - 1 \<Longrightarrow>
     mset (fisherYates rnd k i xs) = mset xs"
proof (induction i arbitrary: k xs)
  case 0
  then show ?case by simp
next
  case (Suc i')
  define j where "j = nat \<lfloor>rnd k * real (Suc i' + 1)\<rfloor>"
  have r: "0 \<le> rnd k" "rnd k < 1" using Suc.prems(1) by auto
  have "rnd k * real (Suc i' + 1) < real (Suc i' + 1)" using r by simp
  then have "\<lfloor>rnd k * real (Suc i' + 1)\<rfloor> < int (Suc i' + 1)" by (simp add: floor_less_iff)
  then have jle: "j \<le> Suc i'" unfolding j_def by linarith
  from Suc.prems(2) have len: "Suc i' < length xs" by linarith
  have m: "mset (xs[Suc i' := xs ! j, j := xs ! Suc i']) = mset xs"
    using mset_swap [of j xs "Suc i'"] jle len by simp
  have "mset (fisherYates rnd (Suc k) i' (xs[Suc i' := xs ! j, j := xs ! Suc i'])) =
        mset (xs[Suc i' := xs ! j, j := xs ! Suc i'])"
    using Suc.IH [where k = "Suc k" and xs = "xs[Suc i' := xs ! j, j := xs ! Suc i']"]
      Suc.prems(1) len by simp
  with m show ?case by (simp add: j_def Let_def)
qed

text \<open>
  C3. In every state with shuffle off, and for every sequence of values in \<open>[0, 1)\<close>
  returned by \<open>Math.random()\<close>, \<open>toggleShuffle\<close> produces a shuffled queue that is a
  permutation of the manual queue followed by the library tracks strictly after the
  current track that are not skipped: the same multiset of tracks, hence the same
  multiset of identifiers, nothing duplicated and nothing left out. Shuffle is then on.
\<close>

theorem toggleShuffle_permutation:
  assumes "\<not> isShuffled s" and "\<forall>k. 0 \<le> rnd k \<and> rnd k < 1"
  shows "mset (shuffledQueue (toggleShuffle rnd s)) =
           mset (queue s
                 @ filter (\<lambda>t. song_id t \<notin> skippedTracks s) (spec_tracksAfterCurrent s))
       \<and> mset (map song_id (shuffledQueue (toggleShuffle rnd s))) =
           mset (map song_id
             (queue s
              @ filter (\<lambda>t. song_id t \<notin> skippedTracks s) (spec_tracksAfterCurrent s)))
       \<and> isShuffled (toggleShuffle rnd s)"
proof -
  let ?xs = "queue s @ filter (\<lambda>t. song_id t \<notin> skippedTracks s) (autoQueue s)"
  have q: "shuffledQueue (toggleShuffle rnd s) = fisherYates rnd 0 (length ?xs - 1) ?xs"
    using assms(1) by (simp add: toggleShuffle_def Let_def)
  have m: "mset (fisherYates rnd 0 (length ?xs - 1) ?xs) = mset ?xs"
    using assms(2) by (rule fisherYates_mset) simp
  have i: "mset (map song_id (fisherYates rnd 0 (length ?xs - 1) ?xs)) = mset (map song_id ?xs)"
    by (simp only: mset_map m)
  have f: "isShuffled (toggleShuffle rnd s)"
    using assms(1) by (simp add: toggleShuffle_def Let_def)
  from m i f show ?thesis unfolding q autoQueue_spec by (intro conjI)
qed

theorem toggleShuffle_permutation_witness:
  "\<not> isShuffled queuedA
   \<and> mset (shuffledQueue (toggleShuffle (\<lambda>k. 1 / 2) queuedA))
       = mset [songA, songY, songZ]
   \<and> shuffledQueue (toggleShuffle (\<lambda>k. 1 / 2) queuedA) = [songA, songZ, songY]"
  using toggleShuffle_permutation [of queuedA "\<lambda>k. 1 / 2"]
  by (simp add: Let_def queuedA_def initialState_def refreshLibrary_def
      handlePlayFromLibrary_def handleAddToQueue_def toggleShuffle_def autoQueue_def
      spec_tracksAfterCurrent_def song_defs)

section \<open>The up-next projection\<close>

text \<open>
  C4. \<open>getUpNext\<close> is a function of the state that returns a list and no state, so it
  changes nothing. With shuffle on it returns the shuffled queue as it is; otherwise
  it returns the manual queue followed by the library tracks strictly after the current
  track whose identifier is not in the skipped set.
\<close>

theorem getUpNext_spec:
  "getUpNext s =
     (if isShuffled s then shuffledQueue s
      else queue s
           @ filter (\<lambda>t. song_id t \<notin> skippedTracks s) (spec_tracksAfterCurrent s))"
  by (simp add: getUpNext_def Let_def autoQueue_spec)

section \<open>Removing from up next\<close>

text \<open>
  C5. For an index within \<open>getUpNext\<close>: with shuffle on, \<open>handleRemoveFromUpNext\<close>
  removes the element at that index from the shuffled queue and changes nothing else;
  with shuffle off and the index below the length of the manual queue, it removes that
  entry of the manual queue and changes nothing else; with shuffle off and the index at
  or beyond the length of the manual queue, it adds the identifier of the up-next
  element at that index to the skipped set and changes nothing else, so the manual
  queue and the library stay as they are.
\<close>

theorem handleRemoveFromUpNext_in_range:
  assumes "0 \<le> index" and "index < int (length (getUpNext s))"
  shows "(isShuffled s \<longrightarrow>
            handleRemoveFromUpNext index s =
              s\<lparr>shuffledQueue := take (nat index) (shuffledQueue s)
                                  @ drop (Suc (nat index)) (shuffledQueue s)\<rparr>)
       \<and> (\<not> isShuffled s \<and> index < int (length (queue s)) \<longrightarrow>
            handleRemoveFromUpNext index s =
              s\<lparr>queue := take (nat index) (queue s) @ drop (Suc (nat index)) (queue s)\<rparr>)
       \<and> (\<not> isShuffled s \<and> int (length (queue s)) \<le> index \<longrightarrow>
            handleRemoveFromUpNext index s =
              s\<lparr>skippedTracks :=
                  insert (song_id (getUpNext s ! nat index)) (skippedTracks s)\<rparr>)"
proof (intro conjI impI)
  assume "isShuffled s"
  with assms show "handleRemoveFromUpNext index s =
      s\<lparr>shuffledQueue := take (nat index) (shuffledQueue s)
                          @ drop (Suc (nat index)) (shuffledQueue s)\<rparr>"
    by (simp add: handleRemoveFromUpNext_def getUpNext_def filterIndexNe_in)
next
  assume "\<not> isShuffled s \<and> index < int (length (queue s))"
  with assms show "handleRemoveFromUpNext index s =
      s\<lparr>queue := take (nat index) (queue s) @ drop (Suc (nat index)) (queue s)\<rparr>"
    by (simp add: handleRemoveFromUpNext_def filterIndexNe_in)
next
  assume "\<not> isShuffled s \<and> int (length (queue s)) \<le> index"
  with assms show "handleRemoveFromUpNext index s =
      s\<lparr>skippedTracks := insert (song_id (getUpNext s ! nat index)) (skippedTracks s)\<rparr>"
    by (simp add: handleRemoveFromUpNext_def atIndex_def)
qed

text \<open>The scenario of the specification: manual queue A, library X, Y, Z, X current,
  shuffle off. Up next is A, Y, Z; removing index 1 skips Y and leaves A, Z.\<close>

theorem handleRemoveFromUpNext_in_range_witness:
  "\<not> isShuffled queuedA \<and> queue queuedA = [songA] \<and> library queuedA = [songX, songY, songZ]
   \<and> currentSong queuedA = Some songX
   \<and> getUpNext queuedA = [songA, songY, songZ]
   \<and> handleRemoveFromUpNext 1 queuedA = queuedA\<lparr>skippedTracks := {''Y''}\<rparr>
   \<and> queue (handleRemoveFromUpNext 1 queuedA) = [songA]
   \<and> library (handleRemoveFromUpNext 1 queuedA) = [songX, songY, songZ]
   \<and> getUpNext (handleRemoveFromUpNext 1 queuedA) = [songA, songZ]"
  using handleRemoveFromUpNext_in_range [of 1 queuedA]
  by (simp add: Let_def queuedA_def initialState_def refreshLibrary_def
      handlePlayFromLibrary_def handleAddToQueue_def getUpNext_def autoQueue_def song_defs)

text \<open>
  C10. For an index outside \<open>getUpNext\<close> (negative, or at least its length),
  \<open>handleRemoveFromUpNext\<close> returns the state it was given: manual queue, shuffled
  queue, skipped set, library, history, current track and flags keep their values.
\<close>

theorem handleRemoveFromUpNext_out_of_range:
  assumes "index < 0 \<or> int (length (getUpNext s)) \<le> index"
  shows "handleRemoveFromUpNext index s = s"
proof (cases "isShuffled s")
  case True
  with assms show ?thesis
    by (simp add: handleRemoveFromUpNext_def getUpNext_def filterIndexNe_out)
next
  case False
  have len: "length (queue s) \<le> length (getUpNext s)"
    using False by (simp add: getUpNext_def Let_def)
  show ?thesis
  proof (cases "index < int (length (queue s))")
    case True
    with assms len have "index < 0" by linarith
    with True False show ?thesis by (simp add: handleRemoveFromUpNext_def filterIndexNe_out)
  next
    case ge: False
    with assms have "atIndex (getUpNext s) index = None" by (auto simp: atIndex_def)
    with ge False show ?thesis by (simp add: handleRemoveFromUpNext_def)
  qed
qed

theorem handleRemoveFromUpNext_out_of_range_witness:
  "getUpNext queuedA = [songA, songY, songZ]
   \<and> handleRemoveFromUpNext 3 queuedA = queuedA
   \<and> handleRemoveFromUpNext (- 1) queuedA = queuedA"
  using handleRemoveFromUpNext_out_of_range [of 3 queuedA]
    handleRemoveFromUpNext_out_of_range [of "- 1" queuedA]
  by (simp add: Let_def queuedA_def initialState_def refreshLibrary_def
      handlePlayFromLibrary_def handleAddToQueue_def getUpNext_def autoQueue_def song_defs)

section \<open>The end of the library\<close>

lemma nextUnskipped_all_skipped:
  "\<forall>k. n \<le> k \<and> k < length lib \<longrightarrow> song_id (lib ! k) \<in> sk \<Longrightarrow>
     \<not> nextUnskipped lib sk n < length lib"
proof (induction lib sk n rule: nextUnskipped.induct)
  case (1 lib sk n)
  show ?case
  proof (cases "n < length lib")
    case True
    with "1.prems" have sk: "song_id (lib ! n) \<in> sk" by simp
    from "1.prems" have "\<forall>k. Suc n \<le> k \<and> k < length lib \<longrightarrow> song_id (lib ! k) \<in> sk"
      by simp
    with "1.IH" True sk have "\<not> nextUnskipped lib sk (Suc n) < length lib" by simp
    with True sk show ?thesis by (subst nextUnskipped.simps) simp
  next
    case False
    then show ?thesis by (subst nextUnskipped.simps) simp
  qed
qed

text \<open>
  C6. In every state with shuffle off, an empty manual queue and a current track such
  that every library index after the index \<open>findIndex\<close> gives for it holds a skipped
  track, \<open>playNext\<close> leaves playing false and the current track as it was; it does not
  go back to the start of the library.
\<close>

theorem playNext_end_of_library:
  assumes "\<not> isShuffled s" and "queue s = []" and "currentSong s = Some c"
    and "\<forall>k<length (library s).
           findIndex (\<lambda>t. song_id t = song_id c) (library s) < int k
           \<longrightarrow> song_id (library s ! k) \<in> skippedTracks s"
  shows "\<not> isPlaying (playNext s) \<and> currentSong (playNext s) = Some c"
proof -
  let ?idx = "findIndex (\<lambda>t. song_id t = song_id c) (library s)"
  have ge: "- 1 \<le> ?idx" by (rule findIndex_ge)
  have "\<forall>k. nat (?idx + 1) \<le> k \<and> k < length (library s)
          \<longrightarrow> song_id (library s ! k) \<in> skippedTracks s"
  proof (intro allI impI)
    fix k assume k: "nat (?idx + 1) \<le> k \<and> k < length (library s)"
    with ge have "?idx < int k" by linarith
    with k assms(4) show "song_id (library s ! k) \<in> skippedTracks s" by simp
  qed
  then have "\<not> nextUnskipped (library s) (skippedTracks s) (nat (?idx + 1)) < length (library s)"
    by (rule nextUnskipped_all_skipped)
  with assms(1-3) show ?thesis by (simp add: playNext_def Let_def)
qed

text \<open>The scenario of the specification: library X, Y, current track Y, empty manual
  queue, nothing skipped, shuffle off.\<close>

theorem playNext_end_of_library_witness:
  "\<not> isShuffled endOfLibrary \<and> queue endOfLibrary = []
   \<and> currentSong endOfLibrary = Some songY \<and> library endOfLibrary = [songX, songY]
   \<and> skippedTracks endOfLibrary = {} \<and> isPlaying endOfLibrary
   \<and> \<not> isPlaying (playNext endOfLibrary) \<and> currentSong (playNext endOfLibrary) = Some songY"
  using playNext_end_of_library [of endOfLibrary songY]
  by (simp add: Let_def endOfLibrary_def initialState_def refreshLibrary_def
      handlePlayFromLibrary_def song_defs less_Suc_eq)

section \<open>History as a stack\<close>

lemma playNext_history_Some:
  "currentSong s = Some c \<Longrightarrow>
     history (playNext s) = history s @ [c] \<and> currentSong (playNext s) \<noteq> None"
  by (simp add: playNext_def Let_def)

lemma playNext_history_None:
  "currentSong s = None \<Longrightarrow> history (playNext s) = history s"
  by (simp add: playNext_def Let_def)

lemma playNext_frame:
  "library (playNext s) = library s \<and> skippedTracks (playNext s) = skippedTracks s"
  by (cases "currentSong s") (simp_all add: playNext_def Let_def)

lemma playPrevious_frame:
  "library (playPrevious s) = library s \<and> skippedTracks (playPrevious s) = skippedTracks s"
  by (cases "currentSong s") (simp_all add: playPrevious_def Let_def)

lemma playPrevious_pop:
  "currentSong s = Some c \<Longrightarrow> t \<le> 3 \<Longrightarrow> history s = hs @ [x] \<Longrightarrow>
     currentSong (playPrevious (s\<lparr>currentTime := t\<rparr>)) = Some x
     \<and> history (playPrevious (s\<lparr>currentTime := t\<rparr>)) = hs"
  by (simp add: playPrevious_def Let_def)

lemma playPrevious_current:
  "currentSong s \<noteq> None \<Longrightarrow> currentSong (playPrevious s) \<noteq> None"
  by (cases "currentSong s") (auto simp: playPrevious_def Let_def)

text \<open>From a state with a current track, \<open>n\<close> calls of \<open>playNext\<close> push \<open>n\<close> tracks,
  the first of them the track that was current.\<close>

lemma playNextTimes_history:
  "currentSong s = Some c \<Longrightarrow>
     \<exists>cs. history (playNextTimes n s) = history s @ cs \<and> length cs = n
          \<and> (0 < n \<longrightarrow> hd cs = c) \<and> currentSong (playNextTimes n s) \<noteq> None"
proof (induction n arbitrary: s c)
  case 0
  then show ?case by simp
next
  case (Suc n)
  from Suc.prems have h: "history (playNext s) = history s @ [c]"
    and "currentSong (playNext s) \<noteq> None"
    using playNext_history_Some by auto
  then obtain c' where c': "currentSong (playNext s) = Some c'" by auto
  from Suc.IH [OF c'] obtain cs where
    cs: "history (playNextTimes n (playNext s)) = history (playNext s) @ cs" "length cs = n"
        "currentSong (playNextTimes n (playNext s)) \<noteq> None"
    by auto
  show ?case
  proof (intro exI [of _ "c # cs"] conjI)
    show "history (playNextTimes (Suc n) s) = history s @ c # cs" using cs(1) h by simp
    show "length (c # cs) = Suc n" using cs(2) by simp
    show "0 < Suc n \<longrightarrow> hd (c # cs) = c" by simp
    show "currentSong (playNextTimes (Suc n) s) \<noteq> None" using cs(3) by simp
  qed
qed

text \<open>As many calls of \<open>playPrevious\<close>, each at most 3 seconds in, pop them again and
  end on the first one pushed.\<close>

lemma playPreviousAt_pops:
  "currentSong s \<noteq> None \<Longrightarrow> \<forall>t\<in>set ts. t \<le> 3 \<Longrightarrow> history s = hs @ cs \<Longrightarrow>
     length cs = length ts \<Longrightarrow> ts \<noteq> [] \<Longrightarrow>
     currentSong (playPreviousAt ts s) = Some (hd cs)"
proof (induction ts arbitrary: s cs)
  case Nil
  then show ?case by simp
next
  case (Cons t ts)
  from Cons.prems(4) have "cs \<noteq> []" by auto
  then obtain cs' x where cs: "cs = cs' @ [x]" by (metis rev_exhaust)
  from Cons.prems(1) obtain c where c: "currentSong s = Some c" by auto
  let ?s' = "playPrevious (s\<lparr>currentTime := t\<rparr>)"
  have pop: "currentSong ?s' = Some x \<and> history ?s' = hs @ cs'"
    using playPrevious_pop [of s c t "hs @ cs'" x] c Cons.prems(2,3) cs by simp
  show ?case
  proof (cases "ts = []")
    case True
    with Cons.prems(4) cs have "cs' = []" by simp
    with True pop cs show ?thesis by simp
  next
    case False
    have "length cs' = length ts" using Cons.prems(4) cs by simp
    with False have ne: "cs' \<noteq> []" by auto
    have "currentSong (playPreviousAt ts ?s') = Some (hd cs')"
      using Cons.IH [of ?s' cs'] pop Cons.prems(2) \<open>length cs' = length ts\<close> False by simp
    with ne cs show ?thesis by simp
  qed
qed

lemma historyNonEmpty_length:
  "currentSong s \<noteq> None \<Longrightarrow> \<forall>t\<in>set ts. t \<le> 3 \<Longrightarrow> historyNonEmptyAtEachStep ts s \<Longrightarrow>
     length ts \<le> length (history s)"
proof (induction ts arbitrary: s)
  case Nil
  then show ?case by simp
next
  case (Cons t ts)
  from Cons.prems(3) have ne: "history s \<noteq> []" by simp
  then obtain hs x where hx: "history s = hs @ [x]" by (metis rev_exhaust)
  from Cons.prems(1) obtain c where c: "currentSong s = Some c" by auto
  let ?s' = "playPrevious (s\<lparr>currentTime := t\<rparr>)"
  have pop: "currentSong ?s' = Some x \<and> history ?s' = hs"
    using playPrevious_pop [of s c t hs x] c Cons.prems(2) hx by simp
  have "length ts \<le> length (history ?s')"
    using Cons.IH [of ?s'] pop Cons.prems(2,3) by simp
  with pop hx show ?case by simp
qed

text \<open>From a state with neither a current track nor a history, \<open>n\<close> calls of
  \<open>playNext\<close> push fewer than \<open>n\<close> tracks: the call that starts playback pushes
  nothing.\<close>

lemma playNextTimes_from_None:
  "currentSong s = None \<Longrightarrow> history s = [] \<Longrightarrow>
     (currentSong (playNextTimes n s) = None \<and> history (playNextTimes n s) = [])
     \<or> (currentSong (playNextTimes n s) \<noteq> None \<and> length (history (playNextTimes n s)) < n)"
proof (induction n arbitrary: s)
  case 0
  then show ?case by simp
next
  case (Suc n)
  have h: "history (playNext s) = []" using Suc.prems playNext_history_None [of s] by simp
  show ?case
  proof (cases "currentSong (playNext s)")
    case None
    from Suc.IH [OF None h] show ?thesis by auto
  next
    case (Some c)
    from playNextTimes_history [OF Some, of n] obtain cs where
      "history (playNextTimes n (playNext s)) = history (playNext s) @ cs" "length cs = n"
      "currentSong (playNextTimes n (playNext s)) \<noteq> None" by auto
    with h show ?thesis by simp
  qed
qed

lemma history_lifo:
  assumes inv: "noHistoryWithoutSong s"
    and len: "length ts = n" and le: "\<forall>t\<in>set ts. t \<le> 3"
    and ne: "historyNonEmptyAtEachStep ts (playNextTimes n s)"
  shows "currentSong (playPreviousAt ts (playNextTimes n s)) = currentSong s"
proof (cases "n = 0")
  case True
  with len show ?thesis by simp
next
  case False
  then have ts: "ts \<noteq> []" using len by auto
  show ?thesis
  proof (cases "currentSong s")
    case (Some c)
    from playNextTimes_history [OF Some, of n] obtain cs where
      cs: "history (playNextTimes n s) = history s @ cs" "length cs = n" "hd cs = c"
          "currentSong (playNextTimes n s) \<noteq> None"
      using False by auto
    have "currentSong (playPreviousAt ts (playNextTimes n s)) = Some (hd cs)"
      using playPreviousAt_pops [OF cs(4) le cs(1)] cs(2) len ts by simp
    with cs(3) Some show ?thesis by simp
  next
    case None
    with inv have h: "history s = []" by (simp add: noHistoryWithoutSong_def)
    from playNextTimes_from_None [OF None h, of n]
    show ?thesis
    proof
      assume a: "currentSong (playNextTimes n s) = None \<and> history (playNextTimes n s) = []"
      from ts obtain t ts' where "ts = t # ts'" by (cases ts) auto
      with ne a show ?thesis by simp
    next
      assume a: "currentSong (playNextTimes n s) \<noteq> None
                  \<and> length (history (playNextTimes n s)) < n"
      then have "length ts \<le> length (history (playNextTimes n s))"
        using historyNonEmpty_length [of "playNextTimes n s" ts] le ne by simp
      with a len show ?thesis by simp
    qed
  qed
qed

text \<open>No handler leaves a history behind without a current track.\<close>

lemma step_noHistoryWithoutSong:
  "noHistoryWithoutSong s \<Longrightarrow> noHistoryWithoutSong (step e s)"
proof (cases e)
  case PlayNext
  assume "noHistoryWithoutSong s"
  then show ?thesis using PlayNext playNext_history_Some [of s] playNext_history_None [of s]
    by (cases "currentSong s") (auto simp: noHistoryWithoutSong_def)
next
  case PlayPrevious
  assume "noHistoryWithoutSong s"
  then show ?thesis using PlayPrevious playPrevious_current [of s]
    by (cases "currentSong s") (auto simp: noHistoryWithoutSong_def playPrevious_def)
next
  case SongEnd
  assume "noHistoryWithoutSong s"
  then show ?thesis using SongEnd playNext_history_Some [of s] playNext_history_None [of s]
    by (cases "currentSong s") (auto simp: noHistoryWithoutSong_def handleSongEnd_def)
next
  case AudioError
  assume "noHistoryWithoutSong s"
  then show ?thesis using AudioError playNext_history_Some [of s] playNext_history_None [of s]
    by (cases "currentSong s") (auto simp: noHistoryWithoutSong_def)
qed (auto simp: noHistoryWithoutSong_def handleAddToQueue_def handleRemoveFromUpNext_def
      toggleShuffle_def toggleRepeat_def togglePlay_def handlePlayFromLibrary_def
      refreshLibrary_def handleUpload_def clearSession_def onTimeUpdate_def onSeek_def Let_def
      split: option.splits)

lemma run_noHistoryWithoutSong:
  "noHistoryWithoutSong s \<Longrightarrow> noHistoryWithoutSong (run evs s)"
  by (induction evs arbitrary: s) (simp_all add: step_noHistoryWithoutSong)

lemma initial_noHistoryWithoutSong: "noHistoryWithoutSong initialState"
  by (simp add: noHistoryWithoutSong_def initialState_def)

text \<open>
  C7. Take any state the component reaches from its initial state by a sequence of
  events, with shuffle off, and any \<open>n\<close>. After \<open>n\<close> calls of \<open>playNext\<close> followed by \<open>n\<close>
  calls of \<open>playPrevious\<close>, each made with an elapsed time of at most 3 seconds and
  with a non-empty history, the current track is the one it was at the start.
\<close>

theorem history_lifo_law:
  assumes "\<not> isShuffled (run evs initialState)"
    and "length ts = n" and "\<forall>t\<in>set ts. t \<le> 3"
    and "historyNonEmptyAtEachStep ts (playNextTimes n (run evs initialState))"
  shows "currentSong (playPreviousAt ts (playNextTimes n (run evs initialState)))
           = currentSong (run evs initialState)"
  using assms(2-4) run_noHistoryWithoutSong [OF initial_noHistoryWithoutSong, of evs]
  by (rule history_lifo [rotated])

text \<open>Library X, Y, Z with X playing: three calls of \<open>playNext\<close> reach Z and stop at the
  end of the library; three calls of \<open>playPrevious\<close> lead back to X.\<close>

theorem history_lifo_law_witness:
  "\<not> isShuffled (run playingX initialState)
   \<and> historyNonEmptyAtEachStep [1, 3, 0] (playNextTimes 3 (run playingX initialState))
   \<and> currentSong (run playingX initialState) = Some songX
   \<and> currentSong (playNextTimes 3 (run playingX initialState)) = Some songZ
   \<and> currentSong (playPreviousAt [1, 3, 0] (playNextTimes 3 (run playingX initialState)))
       = Some songX"
  using history_lifo_law [of playingX "[1, 3, 0]" 3]
  by (simp add: playingX_def initialState_def refreshLibrary_def handlePlayFromLibrary_def
      playNext_def playPrevious_def nextUnskipped.simps Let_def numeral_3_eq_3 song_defs)

section \<open>The skipped set and the library\<close>

text \<open>Whatever \<open>handleRemoveFromUpNext\<close> adds to the skipped set is the identifier of
  a library track.\<close>

lemma handleRemoveFromUpNext_skipped:
  "skippedTracks (handleRemoveFromUpNext index s)
     \<subseteq> skippedTracks s \<union> song_id ` set (library s)
   \<and> library (handleRemoveFromUpNext index s) = library s"
proof (cases "isShuffled s \<or> index < int (length (queue s))")
  case True
  then show ?thesis by (auto simp: handleRemoveFromUpNext_def)
next
  case False
  show ?thesis
  proof (cases "atIndex (getUpNext s) index")
    case None
    with False show ?thesis by (simp add: handleRemoveFromUpNext_def)
  next
    case (Some x)
    then have i: "0 \<le> index" "index < int (length (getUpNext s))"
      and x: "x = getUpNext s ! nat index"
      by (auto simp: atIndex_def split: if_splits)
    let ?f = "filter (\<lambda>t. song_id t \<notin> skippedTracks s) (autoQueue s)"
    have g: "getUpNext s = queue s @ ?f" using False by (simp add: getUpNext_def Let_def)
    have ge: "length (queue s) \<le> nat index" using False i by linarith
    have lt: "nat index - length (queue s) < length ?f" using i g ge by auto
    have "x = ?f ! (nat index - length (queue s))" using x g ge by (simp add: nth_append)
    with lt have "x \<in> set ?f" by (metis nth_mem)
    then have "x \<in> set (library s)" using autoQueue_subset [of s] by auto
    with Some False show ?thesis by (auto simp: handleRemoveFromUpNext_def)
  qed
qed

lemma step_skippedInLibrary:
  assumes "skippedInLibrary s"
    and "isRefresh e \<longrightarrow> skippedTracks s \<subseteq> song_id ` set (library (step e s))"
  shows "skippedInLibrary (step e s)"
proof (cases e)
  case PlayNext
  with assms(1) show ?thesis using playNext_frame [of s] by (simp add: skippedInLibrary_def)
next
  case PlayPrevious
  with assms(1) show ?thesis using playPrevious_frame [of s] by (simp add: skippedInLibrary_def)
next
  case (RemoveFromUpNext index)
  with assms(1) show ?thesis using handleRemoveFromUpNext_skipped [of index s]
    by (auto simp: skippedInLibrary_def)
next
  case (RefreshLibrary cfg uid fetched)
  with assms show ?thesis
    by (auto simp: skippedInLibrary_def refreshLibrary_def split: option.splits)
next
  case SongEnd
  with assms(1) show ?thesis using playNext_frame [of s]
    by (simp add: skippedInLibrary_def handleSongEnd_def)
next
  case AudioError
  with assms(1) show ?thesis using playNext_frame [of s] by (simp add: skippedInLibrary_def)
qed (use assms(1) in \<open>auto simp: skippedInLibrary_def handleAddToQueue_def
      toggleShuffle_def toggleRepeat_def togglePlay_def handlePlayFromLibrary_def
      handleUpload_def clearSession_def onTimeUpdate_def onSeek_def Let_def
      split: option.splits\<close>)

lemma run_skippedInLibrary:
  "skippedInLibrary s \<Longrightarrow> refreshKeepsSkipped evs s \<Longrightarrow> skippedInLibrary (run evs s)"
proof (induction evs arbitrary: s)
  case Nil
  then show ?case by simp
next
  case (Cons e evs)
  from Cons.prems have "skippedInLibrary (step e s)"
    by (intro step_skippedInLibrary) auto
  with Cons show ?case by simp
qed

text \<open>
  C9 (as amended). In every state reached from the initial state by a sequence of
  events in which each library refresh delivers a library that still holds every
  track skipped at that moment, the skipped set contains only identifiers of tracks of
  the current library; so it never contains the identifier of a track that is only in
  the manual or the shuffled queue.
\<close>

theorem skipped_within_library:
  assumes "refreshKeepsSkipped evs initialState"
  shows "skippedTracks (run evs initialState)
           \<subseteq> song_id ` set (library (run evs initialState))"
proof -
  have "skippedInLibrary initialState" by (simp add: skippedInLibrary_def initialState_def)
  then have "skippedInLibrary (run evs initialState)" using assms by (rule run_skippedInLibrary)
  then show ?thesis by (simp add: skippedInLibrary_def)
qed

theorem skipped_within_library_witness:
  "refreshKeepsSkipped (butlast skipThenRefresh) initialState
   \<and> skippedTracks (run (butlast skipThenRefresh) initialState) = {''Y''}
   \<and> library (run (butlast skipThenRefresh) initialState) = [songX, songY]"
  using skipped_within_library [of "butlast skipThenRefresh"]
  by (simp add: skipThenRefresh_def initialState_def refreshLibrary_def
      handlePlayFromLibrary_def handleRemoveFromUpNext_def getUpNext_def autoQueue_def
      atIndex_def Let_def song_defs)

text \<open>
  C9 as stated fails: Y is removed from "up next" while X plays, which puts its
  identifier into the skipped set; a refresh then replaces the library by one without
  Y and leaves the skipped set alone.
\<close>

theorem skipped_within_library_cex:
  "skippedTracks (run skipThenRefresh initialState) = {''Y''}
   \<and> library (run skipThenRefresh initialState) = [songX]
   \<and> \<not> skippedTracks (run skipThenRefresh initialState)
         \<subseteq> song_id ` set (library (run skipThenRefresh initialState))"
  by (simp add: skipThenRefresh_def initialState_def refreshLibrary_def
      handlePlayFromLibrary_def handleRemoveFromUpNext_def getUpNext_def autoQueue_def
      atIndex_def Let_def song_defs)

section \<open>No current track and an empty library\<close>

text \<open>
  C8. In a state with no current track and an empty library, \<open>playNext\<close> and
  \<open>playPrevious\<close> both return the state they were given: every cell (library, manual
  queue, shuffled queue, history, skipped set, current track, flags) keeps its value.
  Neither handler has a path that throws, so the result is always a state.
\<close>

theorem playNext_playPrevious_noop:
  assumes "currentSong s = None" and "library s = []"
  shows "playNext s = s \<and> playPrevious s = s"
  using assms by (simp add: playNext_def playPrevious_def)

theorem playNext_playPrevious_noop_witness:
  "currentSong initialState = None \<and> library initialState = []
   \<and> playNext initialState = initialState \<and> playPrevious initialState = initialState"
  using playNext_playPrevious_noop [of initialState] by (simp add: initialState_def)

end
